theory Spec2Isabelle
  imports Complex_Main
begin

section \<open>The discover command of protocol/discover.go\<close>

text \<open>
  \<^verbatim>\<open>DiscoverCmd.RunE\<close> sets the connector up, enumerates its streams and starts, for every
  stream, a consumer goroutine that in turn starts a producer goroutine; the two share one
  buffered channel. The main goroutine waits on a \<^verbatim>\<open>sync.WaitGroup\<close> and then logs the
  catalog. The goroutines are modelled as an interleaving of atomic actions on one
  explicit process state; a Go \<^verbatim>\<open>error\<close> is modelled by its message.
\<close>

type_synonym err = string

subsection \<open>Data\<close>

text \<open>\<^verbatim>\<open>types.Record\<close>: the command reads only the field \<^verbatim>\<open>Data\<close>.\<close>

record 'd Record =
  Data :: 'd

text \<open>\<^verbatim>\<open>types.Schema\<close> and \<^verbatim>\<open>types.Stream\<close>: a name and the slot that \<^verbatim>\<open>WithJSONSchema\<close> fills.\<close>

record 'p Schema =
  Properties :: 'p

record 'p Stream =
  Name :: string
  JSONSchema :: "'p Schema option"

definition WithJSONSchema :: "'p Schema \<Rightarrow> 'p Stream \<Rightarrow> 'p Stream" where
  "WithJSONSchema sch st = st\<lparr>JSONSchema := Some sch\<rparr>"

text \<open>
  The \<^verbatim>\<open>Driver\<close> the command talks to, by the results of its calls: whether
  \<^verbatim>\<open>rawConnector.(Driver)\<close> succeeds, the errors of \<^verbatim>\<open>Setup\<close> and \<^verbatim>\<open>Check\<close>, the result of
  \<^verbatim>\<open>Discover\<close>, and for every stream what \<^verbatim>\<open>Read\<close> would obtain from the source: the records
  in source order and the error the read ends with, if any.
\<close>

record ('d, 'p) Connector =
  is_driver :: bool
  Setup :: "err option"
  Check :: "err option"
  Discover :: "err + 'p Stream list"
  Read :: "'p Stream \<Rightarrow> 'd Record list \<times> err option"

datatype prod_pc = PReading | PFinished

datatype cons_pc = CReceiving | CResolving | CResolved | CDone

text \<open>
  One stream's goroutine pair: the stream object, what the source has yet to yield, the
  channel (its buffered records, oldest first, and whether it is closed), and the locals
  \<^verbatim>\<open>objects\<close> and \<^verbatim>\<open>count\<close> of the consumer.
\<close>

record ('d, 'p) pipeline =
  stream :: "'p Stream"
  source :: "'d Record list"
  source_err :: "err option"
  channel :: "'d Record list"
  closed :: bool
  producer :: prod_pc
  objects :: "'d list"
  count :: nat
  consumer :: cons_pc

datatype proc = Running | Exited int | Returned "err option"

text \<open>
  The process: the pipelines in the order of the stream list, the counter of the
  \<^verbatim>\<open>WaitGroup\<close>, whether the process runs, has exited (with its status) or \<^verbatim>\<open>RunE\<close> has
  returned, the messages logged at level fatal, and the catalog handed to
  \<^verbatim>\<open>logger.LogCatalog\<close>.
\<close>

record ('d, 'p) discover_state =
  pipes :: "('d, 'p) pipeline list"
  group :: nat
  proc :: proc
  fatal :: "string list"
  catalog :: "'p Stream list option"

subsection \<open>logger.Fatal and logger.Fatalf\<close>

text \<open>Both log the message at level fatal and call \<^verbatim>\<open>os.Exit(1)\<close>.\<close>

definition Fatal :: "string \<Rightarrow> ('d, 'p) discover_state \<Rightarrow> ('d, 'p) discover_state" where
  "Fatal msg s = s\<lparr>fatal := fatal s @ [msg], proc := Exited 1\<rparr>"

definition Fatalf :: "string \<Rightarrow> ('d, 'p) discover_state \<Rightarrow> ('d, 'p) discover_state" where
  "Fatalf msg s = s\<lparr>fatal := fatal s @ [msg], proc := Exited 1\<rparr>"

subsection \<open>The sequential head of RunE\<close>

definition recordsPerStream :: nat where
  "recordsPerStream = 100"

definition spawn :: "('d, 'p) Connector \<Rightarrow> 'p Stream \<Rightarrow> ('d, 'p) pipeline" where
  "spawn c st =
     \<lparr>stream = st, source = fst (Read c st), source_err = snd (Read c st),
      channel = [], closed = False, producer = PReading,
      objects = [], count = 0, consumer = CReceiving\<rparr>"

definition idle :: "('d, 'p) discover_state" where
  "idle = \<lparr>pipes = [], group = 0, proc = Running, fatal = [], catalog = None\<rparr>"

text \<open>
  Lines 24 to 87: every failure calls \<^verbatim>\<open>logger.Fatal\<close>; otherwise one pipeline per stream
  is started, each after \<^verbatim>\<open>group.Add(1)\<close>.
\<close>

definition RunE_start :: "('d, 'p) Connector \<Rightarrow> ('d, 'p) discover_state" where
  "RunE_start c =
     (if \<not> is_driver c then Fatal ''expected type to be: Connector, found <nil>'' idle
      else case Setup c of Some e \<Rightarrow> Fatal e idle | None \<Rightarrow>
        (case Check c of Some e \<Rightarrow> Fatal e idle | None \<Rightarrow>
          (case Discover c of Inl e \<Rightarrow> Fatal e idle | Inr streams \<Rightarrow>
            if length streams = 0 then Fatal ''no streams found in connector'' idle
            else idle\<lparr>pipes := map (spawn c) streams, group := length streams\<rparr>)))"

subsection \<open>The actions of the goroutines\<close>

datatype 'a outcome = Blocked | Next 'a | Die string

text \<open>
  Modelled from the spec: \<^verbatim>\<open>safego.Close\<close> is not in the sources; it closes the channel
  and tolerates a channel that is closed already.
\<close>

definition safego_Close :: "('d, 'p) pipeline \<Rightarrow> ('d, 'p) pipeline" where
  "safego_Close p = p\<lparr>closed := True\<rparr>"

text \<open>
  Modelled from the spec: the connector's \<^verbatim>\<open>Read\<close> is not in the sources. The producer
  pushes every record it obtains into the queue until the source is exhausted or the
  queue signals closure; a send waits while the buffer holds \<^verbatim>\<open>recordsPerStream\<close> records;
  an error raised while reading is returned to the caller.
\<close>

definition producer_send :: "('d, 'p) pipeline \<Rightarrow> ('d, 'p) pipeline outcome" where
  "producer_send p =
     (if producer p = PReading \<and> \<not> closed p \<and> length (channel p) < recordsPerStream then
        (case source p of [] \<Rightarrow> Blocked
         | r # rest \<Rightarrow> Next (p\<lparr>channel := channel p @ [r], source := rest\<rparr>))
      else Blocked)"

text \<open>
  Lines 59 to 65 when \<^verbatim>\<open>Read\<close> comes back: an error is fatal, otherwise the channel is
  closed. \<^verbatim>\<open>Read\<close> comes back because the channel was closed under it
  (\<open>producer_stop\<close>) or because the source has nothing more to give (\<open>producer_return\<close>).
\<close>

definition producer_stop :: "('d, 'p) pipeline \<Rightarrow> ('d, 'p) pipeline outcome" where
  "producer_stop p =
     (if producer p = PReading \<and> closed p
      then Next ((safego_Close p)\<lparr>producer := PFinished\<rparr>) else Blocked)"

definition producer_return :: "('d, 'p) pipeline \<Rightarrow> ('d, 'p) pipeline outcome" where
  "producer_return p =
     (if producer p = PReading \<and> source p = [] then
        (case source_err p of
           Some e \<Rightarrow>
             Die (''Error occurred while reading records from ['' @ Name (stream p) @ '']: '' @ e)
         | None \<Rightarrow> Next ((safego_Close p)\<lparr>producer := PFinished\<rparr>))
      else Blocked)"

text \<open>
  Lines 68 to 74, one iteration of \<^verbatim>\<open>for record := range channel\<close>: a receive takes the
  oldest buffered record, also from a closed channel.
\<close>

definition consumer_recv :: "('d, 'p) pipeline \<Rightarrow> ('d, 'p) pipeline outcome" where
  "consumer_recv p =
     (if consumer p = CReceiving then
        (case channel p of [] \<Rightarrow> Blocked
         | record # rest \<Rightarrow>
             (let p1 = p\<lparr>channel := rest, count := count p + 1,
                         objects := objects p @ [Data record]\<rparr>
              in Next (if count p1 \<ge> recordsPerStream then safego_Close p1 else p1)))
      else Blocked)"

text \<open>The range loop ends once the channel is closed and empty.\<close>

definition consumer_drained :: "('d, 'p) pipeline \<Rightarrow> ('d, 'p) pipeline outcome" where
  "consumer_drained p =
     (if consumer p = CReceiving \<and> channel p = [] \<and> closed p
      then Next (p\<lparr>consumer := CResolving\<rparr>) else Blocked)"

text \<open>Lines 76 to 83: \<^verbatim>\<open>typing.Resolve\<close>, here the parameter \<open>R\<close>, and \<^verbatim>\<open>WithJSONSchema\<close>.\<close>

definition consumer_resolve ::
  "('d list \<Rightarrow> err + 'p) \<Rightarrow> ('d, 'p) pipeline \<Rightarrow> ('d, 'p) pipeline outcome" where
  "consumer_resolve R p =
     (if consumer p = CResolving then
        (case R (objects p) of
           Inl e \<Rightarrow> Die e
         | Inr properties \<Rightarrow>
             Next (p\<lparr>stream := WithJSONSchema \<lparr>Properties = properties\<rparr> (stream p),
                     consumer := CResolved\<rparr>))
      else Blocked)"

datatype action =
  ProdSend nat | ProdStop nat | ProdReturn nat
  | ConsRecv nat | ConsDrained nat | ConsResolve nat | ConsDone nat
  | MainCatalog | MainReturn

text \<open>An action of pipeline \<open>i\<close> runs only while the process runs.\<close>

definition on_pipe ::
  "nat \<Rightarrow> (('d, 'p) pipeline \<Rightarrow> ('d, 'p) pipeline outcome) \<Rightarrow>
   ('d, 'p) discover_state \<Rightarrow> ('d, 'p) discover_state option" where
  "on_pipe i f s =
     (if proc s = Running \<and> i < length (pipes s) then
        (case f (pipes s ! i) of
           Blocked \<Rightarrow> None
         | Next p \<Rightarrow> Some (s\<lparr>pipes := (pipes s)[i := p]\<rparr>)
         | Die msg \<Rightarrow> Some (Fatalf msg s))
      else None)"

text \<open>
  Line 85, \<^verbatim>\<open>group.Done()\<close>: a \<^verbatim>\<open>WaitGroup\<close> whose counter would go negative panics, and a
  panic ends the process with status 2.
\<close>

definition group_Done :: "nat \<Rightarrow> ('d, 'p) discover_state \<Rightarrow> ('d, 'p) discover_state option" where
  "group_Done i s =
     (if proc s = Running \<and> i < length (pipes s) \<and> consumer (pipes s ! i) = CResolved then
        (if group s = 0 then Some (s\<lparr>proc := Exited 2\<rparr>)
         else Some (s\<lparr>pipes := (pipes s)[i := (pipes s ! i)\<lparr>consumer := CDone\<rparr>],
                     group := group s - 1\<rparr>))
      else None)"

text \<open>
  Lines 89 to 97: \<^verbatim>\<open>group.Wait()\<close> lets the main goroutine pass when the counter is zero;
  the callback given to \<^verbatim>\<open>utils.ArrayContains\<close> never returns true, so it visits every
  stream in order and appends its \<^verbatim>\<open>GetStream()\<close>; the list goes to \<^verbatim>\<open>logger.LogCatalog\<close>.
\<close>

definition main_catalog :: "('d, 'p) discover_state \<Rightarrow> ('d, 'p) discover_state option" where
  "main_catalog s =
     (if proc s = Running \<and> catalog s = None \<and> group s = 0
      then Some (s\<lparr>catalog := Some (map stream (pipes s))\<rparr>) else None)"

text \<open>Line 98: \<^verbatim>\<open>return nil\<close>.\<close>

definition main_return :: "('d, 'p) discover_state \<Rightarrow> ('d, 'p) discover_state option" where
  "main_return s =
     (if proc s = Running \<and> catalog s \<noteq> None
      then Some (s\<lparr>proc := Returned None\<rparr>) else None)"

fun step ::
  "('d list \<Rightarrow> err + 'p) \<Rightarrow> action \<Rightarrow> ('d, 'p) discover_state \<Rightarrow>
   ('d, 'p) discover_state option" where
  "step R (ProdSend i) s = on_pipe i producer_send s"
| "step R (ProdStop i) s = on_pipe i producer_stop s"
| "step R (ProdReturn i) s = on_pipe i producer_return s"
| "step R (ConsRecv i) s = on_pipe i consumer_recv s"
| "step R (ConsDrained i) s = on_pipe i consumer_drained s"
| "step R (ConsResolve i) s = on_pipe i (consumer_resolve R) s"
| "step R (ConsDone i) s = group_Done i s"
| "step R MainCatalog s = main_catalog s"
| "step R MainReturn s = main_return s"

text \<open>A schedule is the list of actions in the order they happen.\<close>

fun run ::
  "('d list \<Rightarrow> err + 'p) \<Rightarrow> action list \<Rightarrow> ('d, 'p) discover_state \<Rightarrow>
   ('d, 'p) discover_state option" where
  "run R [] s = Some s"
| "run R (a # as) s = (case step R a s of None \<Rightarrow> None | Some s' \<Rightarrow> run R as s')"

inductive reachable ::
  "('d list \<Rightarrow> err + 'p) \<Rightarrow> ('d, 'p) Connector \<Rightarrow> ('d, 'p) discover_state \<Rightarrow> bool"
  for R c where
  start: "reachable R c (RunE_start c)"
| after: "reachable R c s \<Longrightarrow> step R a s = Some s' \<Longrightarrow> reachable R c s'"

section \<open>FileLogger of logger/logger.go\<close>

text \<open>
  The file system is a map from paths to file contents. What \<^verbatim>\<open>FileLogger\<close> calls outside
  the repository is a parameter: the setting \<^verbatim>\<open>CONFIG_FOLDER\<close> read through viper,
  \<^verbatim>\<open>json.Marshal\<close>, \<^verbatim>\<open>filepath.Join\<close>, the error of \<^verbatim>\<open>os.OpenFile\<close> on a path, how many
  bytes of a write the system takes, and the error it reports on a short write.
\<close>

type_synonym filesystem = "string \<rightharpoonup> string"

record 'c FileEnv =
  CONFIG_FOLDER :: string
  Marshal :: "'c \<Rightarrow> err + string"
  Join :: "string \<Rightarrow> string \<Rightarrow> string"
  OpenFile :: "string \<Rightarrow> err option"
  accepted :: "string \<Rightarrow> string \<Rightarrow> nat"
  short_write :: err

text \<open>
  \<^verbatim>\<open>os.OpenFile\<close> with \<^verbatim>\<open>O_CREATE|O_WRONLY|O_TRUNC\<close> leaves an empty file at the path;
  \<^verbatim>\<open>file.Write\<close> stores the bytes the system takes and returns an error when these are
  fewer than the bytes given.
\<close>

definition FileLogger ::
  "'c FileEnv \<Rightarrow> 'c \<Rightarrow> string \<Rightarrow> string \<Rightarrow> filesystem \<Rightarrow> err option \<times> filesystem" where
  "FileLogger env content fileName fileExtension fs =
     (let filePath = CONFIG_FOLDER env in
      if filePath = [] then (Some ''config folder is not set'', fs)
      else
        (case Marshal env content of
           Inl e \<Rightarrow> (Some (''failed to marshal content: '' @ e), fs)
         | Inr contentBytes \<Rightarrow>
             (let fullPath = Join env filePath (fileName @ fileExtension) in
              case OpenFile env fullPath of
                Some e \<Rightarrow> (Some (''failed to create or open file: '' @ e), fs)
              | None \<Rightarrow>
                  (let truncated = fs(fullPath \<mapsto> []);
                       n = min (accepted env fullPath contentBytes) (length contentBytes);
                       written = truncated(fullPath \<mapsto> take n contentBytes)
                   in if n < length contentBytes
                      then (Some (''failed to write data to file: '' @ short_write env), written)
                      else (None, written)))))"

section \<open>The schema resolver\<close>

text \<open>
  Modelled from the spec: \<^verbatim>\<open>typing.Resolve\<close> is not in the sources. The definitions of
  this section follow the data model and the algorithm of the Schema Resolver in the
  specification: a record is a tagged JSON value, a type descriptor is one of null,
  boolean, integer, number, string, array, object or a union of kinds and carries a
  nullable flag, and a property schema lists the fields in first-seen order. A floating
  number is modelled by a rational.
\<close>

datatype json =
  JNull | JBool bool | JInt int | JNum rat | JStr string
  | JArr "json list" | JObj "(string \<times> json) list"

datatype kind = KNull | KBoolean | KInteger | KNumber | KString | KArray | KObject

datatype 'd shape =
  TNull | TBoolean | TInteger | TNumber | TString
  | TArray 'd | TObject "(string \<times> 'd) list" | TUnion "kind list"

datatype descriptor = Descriptor (shape_of: "descriptor shape") (nullable: bool)

text \<open>
  Modelled from the spec: the kind of one occurrence; a numeric value is an integer if it
  has no fractional part.
\<close>

fun kind_of :: "json \<Rightarrow> kind" where
  "kind_of JNull = KNull"
| "kind_of (JBool b) = KBoolean"
| "kind_of (JInt i) = KInteger"
| "kind_of (JNum q) = (if frac q = 0 then KInteger else KNumber)"
| "kind_of (JStr s) = KString"
| "kind_of (JArr xs) = KArray"
| "kind_of (JObj kvs) = KObject"

text \<open>The distinct elements of a list, ordered by first appearance.\<close>

definition first_seen :: "'a list \<Rightarrow> 'a list" where
  "first_seen xs = fold (\<lambda>x acc. if x \<in> set acc then acc else acc @ [x]) xs []"

definition present :: "json list \<Rightarrow> json list" where
  "present vs = filter (\<lambda>v. v \<noteq> JNull) vs"

text \<open>
  Modelled from the spec: integer and number occurrences together widen to number, so an
  integer occurrence counts as a number as soon as the field has a fractional one.
\<close>

definition widened :: "json list \<Rightarrow> kind \<Rightarrow> kind" where
  "widened vs k = (if k = KInteger \<and> KNumber \<in> set (map kind_of vs) then KNumber else k)"

definition kinds :: "json list \<Rightarrow> kind list" where
  "kinds vs = first_seen (map (\<lambda>v. widened vs (kind_of v)) (present vs))"

fun elements_of :: "json \<Rightarrow> json list" where
  "elements_of (JArr xs) = xs"
| "elements_of v = []"

fun fields_of :: "json \<Rightarrow> (string \<times> json) list list" where
  "fields_of (JObj kvs) = [kvs]"
| "fields_of v = []"

definition elements :: "json list \<Rightarrow> json list" where
  "elements vs = concat (map elements_of vs)"

definition objects_of :: "json list \<Rightarrow> (string \<times> json) list list" where
  "objects_of vs = concat (map fields_of vs)"

definition field_names :: "(string \<times> json) list list \<Rightarrow> string list" where
  "field_names objs = first_seen (concat (map (map fst) objs))"

definition occurrences :: "string \<Rightarrow> (string \<times> json) list list \<Rightarrow> json list" where
  "occurrences f objs = List.map_filter (\<lambda>kvs. map_of kvs f) objs"

definition missing :: "string \<Rightarrow> (string \<times> json) list list \<Rightarrow> bool" where
  "missing f objs = list_ex (\<lambda>kvs. map_of kvs f = None) objs"

text \<open>
  Modelled from the spec: the descriptor of one field from its occurrences across the
  sample. A field absent or null in any record is nullable; one non-null kind resolves
  to that kind; object values are merged field by field and array values element by
  element with the same algorithm; two or more incompatible kinds give the union of the
  kinds in order of first appearance.
\<close>

function describe :: "bool \<Rightarrow> json list \<Rightarrow> descriptor" where
  "describe absent vs =
     (let null = (absent \<or> JNull \<in> set vs) in
      if present vs = [] then Descriptor TNull null
      else if kinds vs = [KObject] then
        Descriptor
          (TObject (map (\<lambda>f. (f, describe (missing f (objects_of vs))
                                      (occurrences f (objects_of vs))))
                     (field_names (objects_of vs))))
          null
      else if kinds vs = [KArray] then Descriptor (TArray (describe False (elements vs))) null
      else (case kinds vs of
              [KBoolean] \<Rightarrow> Descriptor TBoolean null
            | [KInteger] \<Rightarrow> Descriptor TInteger null
            | [KNumber] \<Rightarrow> Descriptor TNumber null
            | [KString] \<Rightarrow> Descriptor TString null
            | ks \<Rightarrow> Descriptor (TUnion ks) null))"
  by pat_completeness auto
termination
proof (relation "measure (\<lambda>(absent, vs). size_list size vs)")
  show "wf (measure (\<lambda>(absent, vs). size_list size vs))" by simp
next
  fix absent :: bool and vs :: "json list" and null :: bool and f :: string
  assume "present vs \<noteq> []"
  then have pos: "0 < length vs" by (auto simp: present_def)
  have total: "size_list size us = sum_list (map size us) + length us" for us :: "json list"
    by (induction us) auto
  have lookup: "size v < size_list (size_prod (\<lambda>_. 0) size) kvs"
    if "map_of kvs f = Some v" for kvs and v :: json
    using that by (induction kvs) (auto split: if_splits)
  have "size_list size (occurrences f (objects_of us)) \<le> sum_list (map size us)" for us
  proof (induction us)
    case Nil
    then show ?case by (simp add: occurrences_def objects_of_def List.map_filter_simps)
  next
    case (Cons u us)
    show ?case
    proof (cases u)
      case (JObj kvs)
      then show ?thesis using Cons lookup [of kvs]
        by (cases "map_of kvs f")
          (auto simp: occurrences_def objects_of_def List.map_filter_simps)
    qed (use Cons in \<open>auto simp: occurrences_def objects_of_def List.map_filter_simps\<close>)
  qed
  from this [of vs] pos
  show "((missing f (objects_of vs), occurrences f (objects_of vs)), absent, vs)
        \<in> measure (\<lambda>(absent, vs). size_list size vs)"
    by (simp add: total [of vs] del: length_greater_0_conv)
next
  fix absent :: bool and vs :: "json list" and null :: bool
  assume "present vs \<noteq> []"
  then have pos: "0 < length vs" by (auto simp: present_def)
  have total: "size_list size us = sum_list (map size us) + length us" for us :: "json list"
    by (induction us) auto
  have "size_list size (elements us) \<le> sum_list (map size us)" for us
  proof (induction us)
    case Nil
    then show ?case by (simp add: elements_def)
  next
    case (Cons u us)
    then show ?case by (cases u) (auto simp: elements_def size_list_append)
  qed
  from this [of vs] pos
  show "((False, elements vs), absent, vs) \<in> measure (\<lambda>(absent, vs). size_list size vs)"
    by (simp add: total [of vs] del: length_greater_0_conv)
qed

declare describe.simps [simp del]

definition properties :: "(string \<times> json) list list \<Rightarrow> (string \<times> descriptor) list" where
  "properties objs =
     map (\<lambda>f. (f, describe (missing f objs) (occurrences f objs))) (field_names objs)"

fun is_object :: "json \<Rightarrow> bool" where
  "is_object (JObj kvs) = True"
| "is_object v = False"

text \<open>
  Modelled from the spec: resolution fails if a top-level sampled value is not a
  field-to-value mapping, and otherwise gives the property schema of the sample.
\<close>

definition Resolve :: "json list \<Rightarrow> err + (string \<times> descriptor) list" where
  "Resolve records =
     (if list_all is_object records then Inr (properties (objects_of records))
      else Inl ''MalformedRecordError'')"

section \<open>Invariants of the discover command\<close>

text \<open>
  What holds of one pipeline in every state: nothing of the source is lost, duplicated or
  reordered on its way through the channel into \<open>objects\<close>; \<open>count\<close> counts the
  retained records; the channel is closed only by the consumer at the cap or by the
  producer after a read without error; the consumer leaves its loop only on a closed and
  empty channel; and the stream carries the resolved schema once the consumer is past
  \<^verbatim>\<open>WithJSONSchema\<close>. \<open>st0\<close>, \<open>src0\<close> and \<open>err0\<close> are the stream as discovered and what
  its read yields.
\<close>

definition pipe_inv ::
  "('d list \<Rightarrow> err + 'p) \<Rightarrow> 'p Stream \<Rightarrow> 'd Record list \<Rightarrow> err option \<Rightarrow>
   ('d, 'p) pipeline \<Rightarrow> bool" where
  "pipe_inv R st0 src0 err0 p \<longleftrightarrow>
     map Data src0 = objects p @ map Data (channel p) @ map Data (source p)
     \<and> count p = length (objects p)
     \<and> length (channel p) \<le> recordsPerStream
     \<and> source_err p = err0
     \<and> (closed p \<longrightarrow> recordsPerStream \<le> count p
            \<or> (producer p = PFinished \<and> source p = [] \<and> err0 = None))
     \<and> (producer p = PFinished \<longrightarrow> closed p)
     \<and> (consumer p \<noteq> CReceiving \<longrightarrow> closed p \<and> channel p = [])
     \<and> (if consumer p = CReceiving \<or> consumer p = CResolving then stream p = st0
         else (\<exists>properties. R (objects p) = Inr properties
                 \<and> stream p = WithJSONSchema \<lparr>Properties = properties\<rparr> st0))"

text \<open>Whether the head of \<^verbatim>\<open>RunE\<close> got as far as starting the pipelines, and for which streams.\<close>

definition started :: "('d, 'p) Connector \<Rightarrow> bool" where
  "started c \<longleftrightarrow> proc (RunE_start c :: ('d, 'p) discover_state) = Running"

definition discovered :: "('d, 'p) Connector \<Rightarrow> 'p Stream list" where
  "discovered c =
     (if started c then (case Discover c of Inl e \<Rightarrow> [] | Inr streams \<Rightarrow> streams) else [])"

definition pipe_ok ::
  "('d list \<Rightarrow> err + 'p) \<Rightarrow> ('d, 'p) Connector \<Rightarrow> 'p Stream \<Rightarrow> ('d, 'p) pipeline \<Rightarrow> bool" where
  "pipe_ok R c st p \<longleftrightarrow> pipe_inv R st (fst (Read c st)) (snd (Read c st)) p"

text \<open>The consumers that have not called \<^verbatim>\<open>group.Done()\<close>.\<close>

definition waiting :: "('d, 'p) pipeline list \<Rightarrow> nat" where
  "waiting ps = length (filter (\<lambda>p. consumer p \<noteq> CDone) ps)"

definition state_inv ::
  "('d list \<Rightarrow> err + 'p) \<Rightarrow> ('d, 'p) Connector \<Rightarrow> ('d, 'p) discover_state \<Rightarrow> bool" where
  "state_inv R c s \<longleftrightarrow>
     list_all2 (pipe_ok R c) (discovered c) (pipes s)
     \<and> group s = waiting (pipes s)
     \<and> (\<forall>cat. catalog s = Some cat \<longrightarrow> group s = 0 \<and> cat = map stream (pipes s))
     \<and> (proc s = Running \<and> fatal s = []
          \<or> proc s = Exited 1 \<and> fatal s \<noteq> []
          \<or> proc s = Returned None \<and> fatal s = [] \<and> catalog s \<noteq> None)
     \<and> (\<not> started c \<longrightarrow> s = RunE_start c)"

text \<open>
  The process runs and pipeline \<open>i\<close> is \<open>p\<close>; and the schedule on which the producer of
  stream \<open>i\<close> sends \<open>n\<close> records and comes back, and the consumer then receives them and
  leaves its loop.
\<close>

definition pipe_at :: "nat \<Rightarrow> ('d, 'p) pipeline \<Rightarrow> ('d, 'p) discover_state \<Rightarrow> bool" where
  "pipe_at i p s \<longleftrightarrow> proc s = Running \<and> i < length (pipes s) \<and> pipes s ! i = p"

definition sampling_schedule :: "nat \<Rightarrow> nat \<Rightarrow> action list" where
  "sampling_schedule i n =
     replicate n (ProdSend i) @ [ProdReturn i] @ replicate n (ConsRecv i) @ [ConsDrained i]"

section \<open>Concrete runs\<close>

text \<open>
  Connectors, schedules and files on which the theorems below are evaluated. The records
  of these connectors carry a number, and the resolver used with them gives the size of
  the sample as the schema, so that a catalog shows how many records each stream kept.
\<close>

definition sample_size :: "nat list \<Rightarrow> err + nat" where
  "sample_size objs = Inr (length objs)"


definition numbered :: "nat \<Rightarrow> nat Record list" where
  "numbered n = map (\<lambda>i. \<lparr>Data = i\<rparr>) [0..<n]"

definition plain :: "string \<Rightarrow> nat Stream" where
  "plain name = \<lparr>Name = name, JSONSchema = None\<rparr>"

definition driver ::
  "nat Stream list \<Rightarrow> (nat Stream \<Rightarrow> nat Record list \<times> err option) \<Rightarrow> (nat, nat) Connector" where
  "driver streams reads =
     \<lparr>is_driver = True, Setup = None, Check = None, Discover = Inr streams, Read = reads\<rparr>"

text \<open>The state a schedule ends in, and what is seen of a state from outside.\<close>

definition final ::
  "('d list \<Rightarrow> err + 'p) \<Rightarrow> ('d, 'p) Connector \<Rightarrow> action list \<Rightarrow> ('d, 'p) discover_state" where
  "final R c sched = the (run R sched (RunE_start c))"

definition summary ::
  "('d, 'p) discover_state \<Rightarrow> nat list \<times> 'p Stream list option \<times> string list \<times> proc" where
  "summary s = (map (\<lambda>p. length (objects p)) (pipes s), catalog s, fatal s, proc s)"



text \<open>One stream of 101 records; the producer stays ahead of the consumer.\<close>

definition overfull :: "(nat, nat) Connector" where
  "overfull = driver [plain ''a''] (\<lambda>st. (numbered 101, None))"

definition overfull_schedule :: "action list" where
  "overfull_schedule =
     replicate 100 (ProdSend 0) @ [ConsRecv 0, ProdSend 0] @ replicate 100 (ConsRecv 0)
     @ [ProdStop 0, ConsDrained 0, ConsResolve 0, ConsDone 0, MainCatalog, MainReturn]"




text \<open>Two streams that are read without error, of three records and of none.\<close>

definition healthy :: "(nat, nat) Connector" where
  "healthy =
     driver [plain ''a'', plain ''b'']
       (\<lambda>st. if Name st = ''a'' then (numbered 3, None) else ([], None))"

definition healthy_sampling :: "action list" where
  "healthy_sampling =
     [ProdSend 0, ConsRecv 0, ProdReturn 1, ProdSend 0, ProdSend 0, ConsDrained 1,
      ProdReturn 0, ConsRecv 0, ConsResolve 1, ConsRecv 0, ConsDrained 0]"

definition healthy_rest :: "action list" where
  "healthy_rest = [ConsDone 1, ConsResolve 0, ConsDone 0, MainCatalog, MainReturn]"

definition healthy_schedule :: "action list" where
  "healthy_schedule = healthy_sampling @ healthy_rest"

text \<open>A connector that enumerates no stream.\<close>

definition streamless :: "(nat, nat) Connector" where
  "streamless = driver [] (\<lambda>st. ([], None))"

text \<open>A sample with an integer and a fractional occurrence of the field a.\<close>

definition widening_sample :: "json list" where
  "widening_sample = [JObj [(''a'', JInt 1)], JObj [(''a'', JNum (3 / 2))]]"

text \<open>
  Environments of \<open>FileLogger\<close>: the content is a number, which marshals to its unary
  numeral unless it is zero.
\<close>

definition tally :: "nat \<Rightarrow> err + string" where
  "tally n = (if n = 0 then Inl ''unsupported value'' else Inr (replicate n CHR ''1''))"

definition configured :: "nat FileEnv" where
  "configured =
     \<lparr>CONFIG_FOLDER = ''/cfg'', Marshal = tally, Join = (\<lambda>dir file. dir @ ''/'' @ file),
      OpenFile = (\<lambda>path. None), accepted = (\<lambda>path bytes. length bytes),
      short_write = ''short write''\<rparr>"

definition unconfigured :: "nat FileEnv" where
  "unconfigured = configured\<lparr>CONFIG_FOLDER := []\<rparr>"

definition old_files :: filesystem where
  "old_files = [''/cfg/stats.json'' \<mapsto> ''previous contents'']"


section \<open>The invariants hold in every reachable state\<close>

lemma pipe_inv_spawn:
  "pipe_inv R st (fst (Read c st)) (snd (Read c st)) (spawn c st)"
  by (simp add: pipe_inv_def spawn_def)

lemma pipe_inv_send:
  "producer_send p = Next p' \<Longrightarrow> pipe_inv R st0 src0 err0 p \<Longrightarrow> pipe_inv R st0 src0 err0 p'"
  by (auto simp: pipe_inv_def producer_send_def split: if_splits list.splits)

lemma pipe_inv_stop:
  "producer_stop p = Next p' \<Longrightarrow> pipe_inv R st0 src0 err0 p \<Longrightarrow> pipe_inv R st0 src0 err0 p'"
  by (auto simp: pipe_inv_def producer_stop_def safego_Close_def split: if_splits)

lemma pipe_inv_return:
  "producer_return p = Next p' \<Longrightarrow> pipe_inv R st0 src0 err0 p \<Longrightarrow> pipe_inv R st0 src0 err0 p'"
  by (auto simp: pipe_inv_def producer_return_def safego_Close_def split: if_splits option.splits)

lemma pipe_inv_recv:
  "consumer_recv p = Next p' \<Longrightarrow> pipe_inv R st0 src0 err0 p \<Longrightarrow> pipe_inv R st0 src0 err0 p'"
  by (auto simp: pipe_inv_def consumer_recv_def safego_Close_def Let_def split: if_splits list.splits)

lemma pipe_inv_drained:
  "consumer_drained p = Next p' \<Longrightarrow> pipe_inv R st0 src0 err0 p \<Longrightarrow> pipe_inv R st0 src0 err0 p'"
  by (auto simp: pipe_inv_def consumer_drained_def split: if_splits)

lemma pipe_inv_resolve:
  "consumer_resolve R p = Next p' \<Longrightarrow> pipe_inv R st0 src0 err0 p \<Longrightarrow> pipe_inv R st0 src0 err0 p'"
  by (auto simp: pipe_inv_def consumer_resolve_def split: if_splits sum.splits)

lemma pipe_inv_done:
  "consumer p = CResolved \<Longrightarrow> pipe_inv R st0 src0 err0 p \<Longrightarrow>
   pipe_inv R st0 src0 err0 (p\<lparr>consumer := CDone\<rparr>)"
  by (auto simp: pipe_inv_def split: if_splits sum.splits)

lemma RunE_start_cases:
  "(\<exists>msg. RunE_start c = Fatal msg idle) \<or>
   (\<exists>streams. Discover c = Inr streams \<and> streams \<noteq> [] \<and>
      RunE_start c = idle\<lparr>pipes := map (spawn c) streams, group := length streams\<rparr>)"
  by (auto simp: RunE_start_def split: option.splits sum.splits)

lemma waiting_spawn: "waiting (map (spawn c) streams) = length streams"
  by (induction streams) (simp_all add: waiting_def spawn_def)

lemma waiting_zero: "waiting ps = 0 \<longleftrightarrow> (\<forall>p \<in> set ps. consumer p = CDone)"
  by (induction ps) (simp_all add: waiting_def)

lemma waiting_same:
  "i < length ps \<Longrightarrow> (consumer q = CDone) = (consumer (ps ! i) = CDone) \<Longrightarrow>
   waiting (ps[i := q]) = waiting ps"
proof (induction ps arbitrary: i)
  case Nil
  then show ?case by simp
next
  case (Cons p ps)
  then show ?case by (cases i) (simp_all add: waiting_def)
qed

lemma waiting_less:
  "i < length ps \<Longrightarrow> consumer q = CDone \<Longrightarrow> consumer (ps ! i) \<noteq> CDone \<Longrightarrow>
   Suc (waiting (ps[i := q])) = waiting ps"
proof (induction ps arbitrary: i)
  case Nil
  then show ?case by simp
next
  case (Cons p ps)
  then show ?case by (cases i) (simp_all add: waiting_def)
qed

lemma list_all2_spawn: "list_all2 (pipe_ok R c) streams (map (spawn c) streams)"
  by (induction streams) (simp_all add: pipe_ok_def pipe_inv_spawn)

lemma state_inv_start: "state_inv R c (RunE_start c)"
proof -
  consider msg where "RunE_start c = Fatal msg idle"
    | streams where "Discover c = Inr streams" "streams \<noteq> []"
        "RunE_start c = idle\<lparr>pipes := map (spawn c) streams, group := length streams\<rparr>"
    using RunE_start_cases [of c] by blast
  then show ?thesis
  proof cases
    case 1
    then show ?thesis
      by (simp add: state_inv_def discovered_def started_def Fatal_def idle_def waiting_def)
  next
    case 2
    then show ?thesis
      by (simp add: state_inv_def discovered_def started_def idle_def waiting_spawn
          list_all2_spawn)
  qed
qed

lemma on_pipe_SomeD:
  "on_pipe i f s = Some s' \<Longrightarrow>
   proc s = Running \<and> i < length (pipes s) \<and>
   ((\<exists>p'. f (pipes s ! i) = Next p' \<and> s' = s\<lparr>pipes := (pipes s)[i := p']\<rparr>)
    \<or> (\<exists>msg. f (pipes s ! i) = Die msg \<and> s' = Fatalf msg s))"
  by (auto simp: on_pipe_def split: if_splits outcome.splits)

lemma state_inv_Fatalf: "state_inv R c s \<Longrightarrow> proc s = Running \<Longrightarrow> state_inv R c (Fatalf msg s)"
  by (auto simp: state_inv_def Fatalf_def started_def)

lemma state_inv_on_pipe:
  assumes step: "on_pipe i f s = Some s'" and inv: "state_inv R c s"
    and keeps: "\<And>st0 src0 err0 p p'. f p = Next p' \<Longrightarrow> pipe_inv R st0 src0 err0 p
                  \<Longrightarrow> pipe_inv R st0 src0 err0 p'
                      \<and> (consumer p' = CDone) = (consumer p = CDone)
                      \<and> (consumer p = CDone \<longrightarrow> stream p' = stream p)"
  shows "state_inv R c s'"
proof -
  from on_pipe_SomeD [OF step] have run: "proc s = Running" and i: "i < length (pipes s)"
    by simp_all
  from on_pipe_SomeD [OF step] consider
    p' where "f (pipes s ! i) = Next p'" "s' = s\<lparr>pipes := (pipes s)[i := p']\<rparr>"
    | msg where "s' = Fatalf msg s"
    by blast
  then show ?thesis
  proof cases
    case 1
    from inv have all: "list_all2 (pipe_ok R c) (discovered c) (pipes s)"
      by (simp add: state_inv_def)
    with i have old: "pipe_ok R c (discovered c ! i) (pipes s ! i)"
      by (simp add: list_all2_conv_all_nth)
    from keeps [OF 1(1)] old have new: "pipe_ok R c (discovered c ! i) p'"
      and same: "(consumer p' = CDone) = (consumer (pipes s ! i) = CDone)"
      and str: "consumer (pipes s ! i) = CDone \<Longrightarrow> stream p' = stream (pipes s ! i)"
      by (simp_all add: pipe_ok_def)
    from all new have all': "list_all2 (pipe_ok R c) (discovered c) ((pipes s)[i := p'])"
      using list_all2_update_cong [of "pipe_ok R c" "discovered c" "pipes s" "discovered c ! i" p' i]
      by simp
    from same i have w: "waiting ((pipes s)[i := p']) = waiting (pipes s)"
      by (simp add: waiting_same)
    have cat: "map stream ((pipes s)[i := p']) = map stream (pipes s)" if "waiting (pipes s) = 0"
    proof -
      from that i have "consumer (pipes s ! i) = CDone"
        by (simp add: waiting_zero)
      then have "stream p' = stream (pipes s ! i)" by (rule str)
      with i show ?thesis by (simp add: map_update list_update_same_conv)
    qed
    from inv run have st: "started c"
      by (auto simp: state_inv_def started_def)
    from inv all' w cat st run show ?thesis
      by (auto simp: state_inv_def 1(2))
  next
    case 2
    with inv run show ?thesis by (simp add: state_inv_Fatalf)
  qed
qed

lemma state_inv_Done:
  assumes step: "group_Done i s = Some s'" and inv: "state_inv R c s"
  shows "state_inv R c s'"
proof -
  from step have run: "proc s = Running" and i: "i < length (pipes s)"
    and pc: "consumer (pipes s ! i) = CResolved"
    by (simp_all add: group_Done_def split: if_splits)
  let ?q = "(pipes s ! i)\<lparr>consumer := CDone\<rparr>"
  from pc i have less: "Suc (waiting ((pipes s)[i := ?q])) = waiting (pipes s)"
    by (simp add: waiting_less)
  with inv have pos: "group s \<noteq> 0" and grp: "group s = waiting (pipes s)"
    by (simp_all add: state_inv_def)
  with step run i pc have s': "s' = s\<lparr>pipes := (pipes s)[i := ?q], group := group s - 1\<rparr>"
    by (simp add: group_Done_def)
  from inv pos have nocat: "catalog s = None"
    by (auto simp: state_inv_def)
  from inv have all: "list_all2 (pipe_ok R c) (discovered c) (pipes s)"
    by (simp add: state_inv_def)
  with i have "pipe_ok R c (discovered c ! i) (pipes s ! i)"
    by (simp add: list_all2_conv_all_nth)
  with pc have "pipe_ok R c (discovered c ! i) ?q"
    by (simp add: pipe_ok_def pipe_inv_done)
  with all have all': "list_all2 (pipe_ok R c) (discovered c) ((pipes s)[i := ?q])"
    using list_all2_update_cong [of "pipe_ok R c" "discovered c" "pipes s" "discovered c ! i" ?q i]
    by simp
  from inv run have st: "started c"
    by (auto simp: state_inv_def started_def)
  from inv all' less grp nocat st run show ?thesis
    by (auto simp: state_inv_def s')
qed

lemma keeps_send:
  "producer_send p = Next p' \<Longrightarrow>
   (consumer p' = CDone) = (consumer p = CDone) \<and> stream p' = stream p"
  by (auto simp: producer_send_def split: if_splits list.splits)

lemma keeps_stop:
  "producer_stop p = Next p' \<Longrightarrow>
   (consumer p' = CDone) = (consumer p = CDone) \<and> stream p' = stream p"
  by (auto simp: producer_stop_def safego_Close_def split: if_splits)

lemma keeps_return:
  "producer_return p = Next p' \<Longrightarrow>
   (consumer p' = CDone) = (consumer p = CDone) \<and> stream p' = stream p"
  by (auto simp: producer_return_def safego_Close_def split: if_splits option.splits)

lemma keeps_recv:
  "consumer_recv p = Next p' \<Longrightarrow>
   (consumer p' = CDone) = (consumer p = CDone) \<and> stream p' = stream p"
  by (auto simp: consumer_recv_def safego_Close_def Let_def split: if_splits list.splits)

lemma keeps_drained:
  "consumer_drained p = Next p' \<Longrightarrow>
   (consumer p' = CDone) = (consumer p = CDone) \<and> stream p' = stream p"
  by (auto simp: consumer_drained_def split: if_splits)

lemma keeps_resolve:
  "consumer_resolve R p = Next p' \<Longrightarrow>
   consumer p = CResolving \<and> consumer p' = CResolved"
  by (auto simp: consumer_resolve_def split: if_splits sum.splits)

lemma state_inv_step:
  assumes "step R a s = Some s'" and "state_inv R c s"
  shows "state_inv R c s'"
proof (cases a)
  case (ProdSend i)
  with assms have "on_pipe i producer_send s = Some s'" by simp
  then show ?thesis using assms(2)
    by (rule state_inv_on_pipe) (simp add: pipe_inv_send keeps_send)
next
  case (ProdStop i)
  with assms have "on_pipe i producer_stop s = Some s'" by simp
  then show ?thesis using assms(2)
    by (rule state_inv_on_pipe) (simp add: pipe_inv_stop keeps_stop)
next
  case (ProdReturn i)
  with assms have "on_pipe i producer_return s = Some s'" by simp
  then show ?thesis using assms(2)
    by (rule state_inv_on_pipe) (simp add: pipe_inv_return keeps_return)
next
  case (ConsRecv i)
  with assms have "on_pipe i consumer_recv s = Some s'" by simp
  then show ?thesis using assms(2)
    by (rule state_inv_on_pipe) (simp add: pipe_inv_recv keeps_recv)
next
  case (ConsDrained i)
  with assms have "on_pipe i consumer_drained s = Some s'" by simp
  then show ?thesis using assms(2)
    by (rule state_inv_on_pipe) (simp add: pipe_inv_drained keeps_drained)
next
  case (ConsResolve i)
  with assms have "on_pipe i (consumer_resolve R) s = Some s'" by simp
  then show ?thesis using assms(2)
  proof (rule state_inv_on_pipe)
    fix st0 src0 err0 and p p' :: "('a, 'b) pipeline"
    assume "consumer_resolve R p = Next p'" "pipe_inv R st0 src0 err0 p"
    then show "pipe_inv R st0 src0 err0 p'
        \<and> (consumer p' = CDone) = (consumer p = CDone)
        \<and> (consumer p = CDone \<longrightarrow> stream p' = stream p)"
      using keeps_resolve [of R p p'] by (simp add: pipe_inv_resolve)
  qed
next
  case (ConsDone i)
  with assms show ?thesis by (simp add: state_inv_Done)
next
  case MainCatalog
  with assms have *: "proc s = Running" "catalog s = None" "group s = 0"
    "s' = s\<lparr>catalog := Some (map stream (pipes s))\<rparr>"
    by (simp_all add: main_catalog_def split: if_splits)
  from assms(2) *(1) have st: "started c"
    by (auto simp: state_inv_def started_def)
  from assms(2) * st show ?thesis
    by (simp add: state_inv_def)
next
  case MainReturn
  with assms have *: "proc s = Running" "catalog s \<noteq> None" "s' = s\<lparr>proc := Returned None\<rparr>"
    by (simp_all add: main_return_def split: if_splits)
  from assms(2) *(1) have st: "started c"
    by (auto simp: state_inv_def started_def)
  from assms(2) * st show ?thesis
    by (auto simp: state_inv_def)
qed

lemma reachable_inv: "reachable R c s \<Longrightarrow> state_inv R c s"
  by (induction rule: reachable.induct) (simp_all add: state_inv_start state_inv_step)

lemma run_reachable:
  "run R sched s = Some s' \<Longrightarrow> reachable R c s \<Longrightarrow> reachable R c s'"
proof (induction sched arbitrary: s)
  case Nil
  then show ?case by simp
next
  case (Cons a sched)
  then show ?case by (auto split: option.splits intro: reachable.after)
qed

lemma not_started_start:
  "\<not> started c \<Longrightarrow> \<exists>msg. (RunE_start c :: ('d, 'p) discover_state) = Fatal msg idle"
  using RunE_start_cases [of c] by (auto simp: started_def idle_def)

lemma reachable_not_started:
  assumes "reachable R c s" and "\<not> started c"
  shows "s = RunE_start c \<and> pipes s = [] \<and> proc s = Exited 1 \<and> catalog s = None"
proof -
  from assms have "s = RunE_start c"
    using reachable_inv [of R c s] by (simp add: state_inv_def)
  moreover from assms(2) obtain msg where "RunE_start c = (Fatal msg idle :: ('a, 'b) discover_state)"
    using not_started_start by blast
  ultimately show ?thesis by (simp add: Fatal_def idle_def)
qed

lemma discovered_eq: "started c \<Longrightarrow> Discover c = Inr streams \<Longrightarrow> discovered c = streams"
  by (simp add: discovered_def)

lemma reachable_pipes:
  assumes "reachable R c s" and "started c" and "Discover c = Inr streams"
  shows "length (pipes s) = length streams"
    and "i < length streams \<Longrightarrow>
         pipe_inv R (streams ! i) (fst (Read c (streams ! i))) (snd (Read c (streams ! i))) (pipes s ! i)"
proof -
  from assms have all: "list_all2 (pipe_ok R c) streams (pipes s)"
    using reachable_inv [of R c s] by (simp add: state_inv_def discovered_eq)
  then show "length (pipes s) = length streams"
    by (simp add: list_all2_lengthD)
  show "pipe_inv R (streams ! i) (fst (Read c (streams ! i))) (snd (Read c (streams ! i))) (pipes s ! i)"
    if "i < length streams"
    using all that by (simp add: list_all2_conv_all_nth pipe_ok_def)
qed

lemma step_running: "step R a s = Some s' \<Longrightarrow> proc s = Running"
  by (cases a) (auto simp: on_pipe_def group_Done_def main_catalog_def main_return_def split: if_splits)


lemma run_append:
  "run R (xs @ ys) s = (case run R xs s of None \<Rightarrow> None | Some s' \<Rightarrow> run R ys s')"
  by (induction xs arbitrary: s) (auto split: option.splits)

lemma step_same_pipes:
  "step R a s = Some s' \<Longrightarrow> length (pipes s') = length (pipes s)"
  by (cases a) (auto simp: on_pipe_def group_Done_def main_catalog_def main_return_def Fatalf_def
      split: if_splits outcome.splits)

lemma step_keeps_objects:
  assumes "step R a s = Some s'" and "i < length (pipes s)" and "consumer (pipes s ! i) \<noteq> CReceiving"
  shows "objects (pipes s' ! i) = objects (pipes s ! i) \<and> consumer (pipes s' ! i) \<noteq> CReceiving"
proof (cases a)
  case (ProdSend j)
  with assms show ?thesis
    by (cases "j = i")
      (auto simp: on_pipe_def Fatalf_def producer_send_def split: if_splits outcome.splits list.splits)
next
  case (ProdStop j)
  with assms show ?thesis
    by (cases "j = i")
      (auto simp: on_pipe_def Fatalf_def producer_stop_def safego_Close_def split: if_splits outcome.splits)
next
  case (ProdReturn j)
  with assms show ?thesis
    by (cases "j = i")
      (auto simp: on_pipe_def Fatalf_def producer_return_def safego_Close_def
        split: if_splits outcome.splits option.splits)
next
  case (ConsRecv j)
  with assms show ?thesis
    by (cases "j = i")
      (auto simp: on_pipe_def Fatalf_def consumer_recv_def safego_Close_def Let_def
        split: if_splits outcome.splits list.splits)
next
  case (ConsDrained j)
  with assms show ?thesis
    by (cases "j = i")
      (auto simp: on_pipe_def Fatalf_def consumer_drained_def split: if_splits outcome.splits)
next
  case (ConsResolve j)
  with assms show ?thesis
    by (cases "j = i")
      (auto simp: on_pipe_def Fatalf_def consumer_resolve_def split: if_splits outcome.splits sum.splits)
next
  case (ConsDone j)
  with assms show ?thesis
    by (cases "j = i") (auto simp: group_Done_def split: if_splits)
next
  case MainCatalog
  with assms show ?thesis by (auto simp: main_catalog_def split: if_splits)
next
  case MainReturn
  with assms show ?thesis by (auto simp: main_return_def split: if_splits)
qed

lemma run_keeps_objects:
  "run R sched s = Some s' \<Longrightarrow> i < length (pipes s) \<Longrightarrow> consumer (pipes s ! i) \<noteq> CReceiving \<Longrightarrow>
   objects (pipes s' ! i) = objects (pipes s ! i) \<and> consumer (pipes s' ! i) \<noteq> CReceiving"
proof (induction sched arbitrary: s)
  case Nil
  then show ?case by simp
next
  case (Cons a sched)
  from Cons.prems(1) obtain s1 where a: "step R a s = Some s1" and rest: "run R sched s1 = Some s'"
    by (auto split: option.splits)
  from step_keeps_objects [OF a Cons.prems(2,3)] step_same_pipes [OF a] Cons.prems(2)
  have "objects (pipes s1 ! i) = objects (pipes s ! i)" "consumer (pipes s1 ! i) \<noteq> CReceiving"
    "i < length (pipes s1)" by simp_all
  with Cons.IH [OF rest] show ?case by simp
qed

lemma final_reachable:
  "run R sched (RunE_start c) \<noteq> None \<Longrightarrow> reachable R c (final R c sched)"
proof -
  assume "run R sched (RunE_start c) \<noteq> None"
  then obtain s where s: "run R sched (RunE_start c) = Some s" by blast
  from run_reachable [OF s reachable.start] s show ?thesis
    by (simp add: final_def)
qed


lemma short_source_objects:
  assumes "reachable R c s" and "Discover c = Inr streams" and "i < length streams"
    and "i < length (pipes s)"
    and "Read c (streams ! i) = (src, None)" and "length src < recordsPerStream"
    and "consumer (pipes s ! i) \<noteq> CReceiving"
  shows "objects (pipes s ! i) = map Data src"
proof -
  from assms(1,4) have st: "started c"
    using reachable_not_started [of R c s] by (cases "started c") auto
  from reachable_pipes(2) [OF assms(1) st assms(2,3)] assms(5)
  have inv: "pipe_inv R (streams ! i) src None (pipes s ! i)" by simp
  let ?p = "pipes s ! i"
  from inv have data: "map Data src = objects ?p @ map Data (channel ?p) @ map Data (source ?p)"
    and cnt: "count ?p = length (objects ?p)"
    by (simp_all add: pipe_inv_def)
  from data have "length (objects ?p) \<le> length src"
    by (metis length_append length_map le_add1)
  with cnt assms(6) have small: "\<not> recordsPerStream \<le> count ?p" by simp
  from inv assms(7) have "closed ?p" and empty: "channel ?p = []"
    by (simp_all add: pipe_inv_def)
  with inv small have "source ?p = []"
    by (auto simp: pipe_inv_def)
  with data empty show ?thesis by simp
qed


section \<open>Facts about the resolver\<close>

lemma first_seen_aux:
  "set (fold (\<lambda>x acc. if x \<in> set acc then acc else acc @ [x]) xs acc) = set acc \<union> set xs
   \<and> (distinct acc \<longrightarrow> distinct (fold (\<lambda>x acc. if x \<in> set acc then acc else acc @ [x]) xs acc))"
  by (induction xs arbitrary: acc) auto

lemma set_first_seen: "set (first_seen xs) = set xs"
  by (simp add: first_seen_def first_seen_aux)

lemma distinct_first_seen: "distinct (first_seen xs)"
  by (simp add: first_seen_def first_seen_aux)

lemma first_seen_single:
  assumes "xs \<noteq> []" and "\<forall>x\<in>set xs. x = k"
  shows "first_seen xs = [k]"
proof -
  from assms have s: "set (first_seen xs) = {k}"
    by (cases xs) (auto simp: set_first_seen)
  have d: "distinct (first_seen xs)" by (rule distinct_first_seen)
  from s obtain y ys where eq: "first_seen xs = y # ys"
    by (cases "first_seen xs") auto
  with s d have "y = k" "set ys \<subseteq> {k}" "k \<notin> set ys" by auto
  then have "ys = []" by (cases ys) auto
  with eq \<open>y = k\<close> show ?thesis by simp
qed

lemma map_of_properties:
  "map_of (properties objs) f =
     (if f \<in> set (field_names objs)
      then Some (describe (missing f objs) (occurrences f objs)) else None)"
proof -
  have "map_of (map (\<lambda>f. (f, g f)) names) f = (if f \<in> set names then Some (g f) else None)"
    for g :: "string \<Rightarrow> descriptor" and names
    by (induction names) auto
  then show ?thesis by (simp add: properties_def)
qed

lemma objects_of_all: "list_all is_object records \<Longrightarrow> map JObj (objects_of records) = records"
proof (induction records)
  case Nil
  then show ?case by (simp add: objects_of_def)
next
  case (Cons r records)
  then show ?case by (cases r) (simp_all add: objects_of_def)
qed

lemma set_occurrences:
  "set (occurrences f objs) = {v. \<exists>kvs\<in>set objs. map_of kvs f = Some v}"
  by (force simp: occurrences_def List.map_filter_def)

lemma in_field_names:
  "kvs \<in> set objs \<Longrightarrow> map_of kvs f = Some v \<Longrightarrow> f \<in> set (field_names objs)"
  by (auto simp: field_names_def set_first_seen dest!: map_of_SomeD intro!: bexI [of _ kvs] image_eqI [of _ fst "(f, v)"])

text \<open>The kinds of a sample that holds both an integer and a fractional number.\<close>

lemma kinds_numeric:
  assumes int: "v1 \<in> set vs" "kind_of v1 = KInteger"
    and num: "v2 \<in> set vs" "kind_of v2 = KNumber"
  shows "KInteger \<notin> set (kinds vs)" and "KNumber \<in> set (kinds vs)"
    and "(\<forall>v\<in>set vs. kind_of v \<in> {KNull, KInteger, KNumber}) \<Longrightarrow> kinds vs = [KNumber]"
proof -
  from num have "KNumber \<in> set (map kind_of vs)" by force
  then have w: "widened vs k = (if k = KInteger then KNumber else k)" for k
    by (simp add: widened_def)
  then show "KInteger \<notin> set (kinds vs)"
    by (auto simp: kinds_def set_first_seen)
  from num have "v2 \<in> set (present vs)"
    by (auto simp: present_def)
  with num(2) w show "KNumber \<in> set (kinds vs)"
    by (force simp: kinds_def set_first_seen)
  assume all: "\<forall>v\<in>set vs. kind_of v \<in> {KNull, KInteger, KNumber}"
  have ne: "map (\<lambda>v. widened vs (kind_of v)) (present vs) \<noteq> []"
    using \<open>v2 \<in> set (present vs)\<close> by auto
  have "widened vs (kind_of v) = KNumber" if "v \<in> set (present vs)" for v
  proof -
    from that have "v \<in> set vs" "v \<noteq> JNull" by (auto simp: present_def)
    with all have "kind_of v = KInteger \<or> kind_of v = KNumber"
      by (cases v) (auto split: if_splits)
    with w show ?thesis by auto
  qed
  then have "\<forall>k\<in>set (map (\<lambda>v. widened vs (kind_of v)) (present vs)). k = KNumber" by auto
  with ne show "kinds vs = [KNumber]"
    unfolding kinds_def by (rule first_seen_single)
qed

lemma describe_shape:
  "present vs \<noteq> [] \<Longrightarrow> kinds vs = [KNumber] \<Longrightarrow> shape_of (describe absent vs) = TNumber"
  by (simp add: describe.simps Let_def)

lemma describe_not_integer:
  assumes "KInteger \<notin> set (kinds vs)" and "KNumber \<in> set (kinds vs)"
  shows "shape_of (describe absent vs) \<noteq> TInteger"
    and "shape_of (describe absent vs) = TUnion ks \<Longrightarrow> KInteger \<notin> set ks \<and> KNumber \<in> set ks"
proof -
  from assms(2) have ne: "present vs \<noteq> []"
    by (auto simp: kinds_def first_seen_def)
  from assms have k: "kinds vs \<noteq> [KObject]" "kinds vs \<noteq> [KArray]" "kinds vs \<noteq> [KInteger]"
    by auto
  from ne k assms show "shape_of (describe absent vs) \<noteq> TInteger"
    by (auto simp: describe.simps Let_def split: list.splits kind.splits)
  assume "shape_of (describe absent vs) = TUnion ks"
  with ne k have "ks = kinds vs"
    by (auto simp: describe.simps Let_def split: list.splits kind.splits)
  with assms show "KInteger \<notin> set ks \<and> KNumber \<in> set ks" by simp
qed


section \<open>A run that completes the sampling of a short source\<close>

lemma at_on_pipe:
  "pipe_at i p s \<Longrightarrow> f p = Next p' \<Longrightarrow> \<exists>s'. on_pipe i f s = Some s' \<and> pipe_at i p' s'"
  by (simp add: pipe_at_def on_pipe_def)

lemma at_sends:
  "pipe_at i p s \<Longrightarrow> producer p = PReading \<Longrightarrow> \<not> closed p \<Longrightarrow> length (source p) = n \<Longrightarrow>
   length (channel p) + n \<le> recordsPerStream \<Longrightarrow>
   \<exists>s'. run R (replicate n (ProdSend i)) s = Some s'
     \<and> pipe_at i (p\<lparr>channel := channel p @ source p, source := []\<rparr>) s'"
proof (induction n arbitrary: p s)
  case 0
  then have same: "p\<lparr>channel := channel p @ source p, source := []\<rparr> = p"
    by (cases p) simp
  from 0 show ?case unfolding same by simp
next
  case (Suc n)
  from Suc.prems(4) obtain r rest where src: "source p = r # rest" and len: "length rest = n"
    by (cases "source p") auto
  let ?p1 = "p\<lparr>channel := channel p @ [r], source := rest\<rparr>"
  from Suc.prems src have "producer_send p = Next ?p1"
    by (simp add: producer_send_def)
  with Suc.prems(1) obtain s1 where s1: "on_pipe i producer_send s = Some s1" "pipe_at i ?p1 s1"
    using at_on_pipe by blast
  from Suc.prems len have "producer ?p1 = PReading" "\<not> closed ?p1" "length (source ?p1) = n"
    "length (channel ?p1) + n \<le> recordsPerStream"
    by simp_all
  from Suc.IH [OF s1(2) this] obtain s' where
    "run R (replicate n (ProdSend i)) s1 = Some s'"
    "pipe_at i (?p1\<lparr>channel := channel ?p1 @ source ?p1, source := []\<rparr>) s'"
    by blast
  with s1(1) src show ?case by simp
qed

lemma at_recvs:
  "pipe_at i p s \<Longrightarrow> consumer p = CReceiving \<Longrightarrow> closed p \<Longrightarrow> length (channel p) = n \<Longrightarrow>
   \<exists>s'. run R (replicate n (ConsRecv i)) s = Some s'
     \<and> pipe_at i (p\<lparr>channel := [], count := count p + n,
               objects := objects p @ map Data (channel p)\<rparr>) s'"
proof (induction n arbitrary: p s)
  case 0
  then have same: "p\<lparr>channel := [], count := count p + 0,
      objects := objects p @ map Data (channel p)\<rparr> = p"
    by (cases p) simp
  from 0 show ?case unfolding same by simp
next
  case (Suc n)
  from Suc.prems(4) obtain r rest where ch: "channel p = r # rest" and len: "length rest = n"
    by (cases "channel p") auto
  let ?p1 = "p\<lparr>channel := rest, count := count p + 1, objects := objects p @ [Data r]\<rparr>"
  from Suc.prems ch have "consumer_recv p = Next ?p1"
    by (simp add: consumer_recv_def safego_Close_def Let_def)
  with Suc.prems(1) obtain s1 where s1: "on_pipe i consumer_recv s = Some s1" "pipe_at i ?p1 s1"
    using at_on_pipe by blast
  from Suc.prems len have "consumer ?p1 = CReceiving" "closed ?p1" "length (channel ?p1) = n"
    by simp_all
  from Suc.IH [OF s1(2) this] obtain s' where
    "run R (replicate n (ConsRecv i)) s1 = Some s'"
    "pipe_at i (?p1\<lparr>channel := [], count := count ?p1 + n,
              objects := objects ?p1 @ map Data (channel ?p1)\<rparr>) s'"
    by blast
  with s1(1) ch show ?case by simp
qed

lemma at_start:
  assumes "started c" and "Discover c = Inr streams" and "i < length streams"
  shows "pipe_at i (spawn c (streams ! i)) (RunE_start c :: ('d, 'p) discover_state)"
proof -
  from assms(1) have "\<not> (\<exists>msg. (RunE_start c :: ('d, 'p) discover_state) = Fatal msg idle)"
    by (auto simp: started_def Fatal_def)
  with RunE_start_cases [of c] assms(2)
  have "(RunE_start c :: ('d, 'p) discover_state)
      = idle\<lparr>pipes := map (spawn c) streams, group := length streams\<rparr>"
    by auto
  with assms(3) show ?thesis by (simp add: pipe_at_def idle_def)
qed

lemma sampling_completes:
  assumes st: "started c" and d: "Discover c = Inr streams" and i: "i < length streams"
    and rd: "Read c (streams ! i) = (src, None)" and short: "length src \<le> recordsPerStream"
  shows "\<exists>s. run R (sampling_schedule i (length src)) (RunE_start c) = Some s
           \<and> consumer (pipes s ! i) = CResolving \<and> objects (pipes s ! i) = map Data src"
proof -
  let ?n = "length src"
  let ?p0 = "spawn c (streams ! i) :: ('a, 'b) pipeline"
  from st d i have a0: "pipe_at i ?p0 (RunE_start c)" by (rule at_start)
  from rd have p0: "producer ?p0 = PReading" "\<not> closed ?p0" "length (source ?p0) = ?n"
    "channel ?p0 = []" "source ?p0 = src" "source_err ?p0 = None" "consumer ?p0 = CReceiving"
    "objects ?p0 = []"
    by (simp_all add: spawn_def)
  let ?p1 = "?p0\<lparr>channel := channel ?p0 @ source ?p0, source := []\<rparr>"
  from at_sends [OF a0 p0(1,2,3), of R] short p0(4) obtain s1 where
    s1: "run R (replicate ?n (ProdSend i)) (RunE_start c) = Some s1" "pipe_at i ?p1 s1"
    by auto
  let ?p2 = "(safego_Close ?p1)\<lparr>producer := PFinished\<rparr>"
  from p0 have "producer_return ?p1 = Next ?p2"
    by (simp add: producer_return_def)
  with s1(2) obtain s2 where s2: "on_pipe i producer_return s1 = Some s2" "pipe_at i ?p2 s2"
    using at_on_pipe by blast
  from p0 have p2: "consumer ?p2 = CReceiving" "closed ?p2" "length (channel ?p2) = ?n"
    by (simp_all add: safego_Close_def)
  let ?p3 = "?p2\<lparr>channel := [], count := count ?p2 + ?n,
      objects := objects ?p2 @ map Data (channel ?p2)\<rparr>"
  from at_recvs [OF s2(2) p2, of R] obtain s3 where
    s3: "run R (replicate ?n (ConsRecv i)) s2 = Some s3" "pipe_at i ?p3 s3"
    by blast
  let ?p4 = "?p3\<lparr>consumer := CResolving\<rparr>"
  from p0 have "consumer_drained ?p3 = Next ?p4"
    by (simp add: consumer_drained_def safego_Close_def)
  with s3(2) obtain s4 where s4: "on_pipe i consumer_drained s3 = Some s4" "pipe_at i ?p4 s4"
    using at_on_pipe by blast
  from s1(1) s2(1) s3(1) s4(1)
  have "run R (sampling_schedule i ?n) (RunE_start c) = Some s4"
    by (simp add: sampling_schedule_def run_append)
  moreover from s4(2) p0 have "consumer (pipes s4 ! i) = CResolving"
    "objects (pipes s4 ! i) = map Data src"
    by (simp_all add: pipe_at_def safego_Close_def)
  ultimately show ?thesis by blast
qed


section \<open>The claims\<close>

subsection \<open>C1: the size of the retained sample\<close>

text \<open>
  Claim C1 says that the retained sample of a stream never exceeds the cap of 100 records
  and has exactly 100 records when the source yields at least 100. The consumer closes
  the channel at its 100th record but stays in the range loop, which goes on receiving
  what the channel still buffers. With a source of 101 records and a producer that has
  refilled the buffer before the consumer's 100th receive, the loop ends with 101
  retained records, all of which reach the resolver: the run below returns with a
  catalog whose schema was resolved from 101 records.
\<close>

theorem sample_exceeds_cap:
  "map_option summary (run sample_size overfull_schedule (RunE_start overfull))
     = Some ([101], Some [\<lparr>Name = ''a'', JSONSchema = Some \<lparr>Properties = 101\<rparr>\<rparr>], [],
             Returned None)"
  by code_simp

subsection \<open>C2: a failed read and the catalog\<close>




subsection \<open>C3: no stream\<close>

text \<open>
  Claim C3: if the connector enumerates no stream (and setup and check succeeded), the
  command logs the fatal message and exits with status 1 before any pipeline exists: the
  state has no pipeline, no action of any goroutine is possible, and this is the only
  state the run has.
\<close>

theorem empty_discovery_is_fatal:
  assumes "is_driver c" and "Setup c = None" and "Check c = None" and "Discover c = Inr []"
  shows "RunE_start c = Fatal ''no streams found in connector'' idle
         \<and> (\<forall>a. step R a (RunE_start c) = None)
         \<and> (\<forall>s. reachable R c s \<longrightarrow>
               s = RunE_start c \<and> pipes s = [] \<and> proc s = Exited 1 \<and> catalog s = None)"
proof -
  from assms have start: "RunE_start c = (Fatal ''no streams found in connector'' idle :: ('a, 'b) discover_state)"
    by (simp add: RunE_start_def)
  then have ns: "\<not> started c"
    by (simp add: started_def Fatal_def)
  have "step R a (RunE_start c) = None" for a
  proof (cases "step R a (RunE_start c)")
    case None
    then show ?thesis .
  next
    case (Some s')
    then have "proc (RunE_start c :: ('a, 'b) discover_state) = Running" by (rule step_running)
    with ns show ?thesis by (simp add: started_def)
  qed
  with start ns show ?thesis
    by (auto dest: reachable_not_started)
qed

theorem empty_discovery_is_fatal_witness:
  "is_driver streamless \<and> Setup streamless = None \<and> Check streamless = None
   \<and> Discover streamless = Inr []
   \<and> RunE_start streamless = Fatal ''no streams found in connector'' idle
   \<and> step sample_size (ProdSend 0) (RunE_start streamless) = None
   \<and> reachable sample_size streamless (RunE_start streamless)
   \<and> pipes (RunE_start streamless) = []
   \<and> proc (RunE_start streamless) = Exited 1"
proof -
  have h: "is_driver streamless" "Setup streamless = None" "Check streamless = None"
    "Discover streamless = Inr []"
    by (simp_all add: streamless_def driver_def)
  have r: "reachable sample_size streamless (RunE_start streamless)"
    by (rule reachable.start)
  from empty_discovery_is_fatal [OF h, of sample_size] h r show ?thesis by blast
qed

subsection \<open>C4: a source shorter than the cap\<close>

text \<open>
  Claim C4: for a stream whose read yields fewer than 100 records and no error, the
  sample that the consumer holds whenever it has left its receive loop is the data of the
  whole source, in source order; and the consumer does get there: on the schedule on
  which the producer sends every record and comes back and the consumer then receives
  them, the loop ends with that sample.
\<close>

theorem short_source_retained_in_full:
  assumes "started c" and "Discover c = Inr streams" and "i < length streams"
    and "Read c (streams ! i) = (src, None)" and "length src < recordsPerStream"
  shows "(\<forall>s. reachable R c s \<and> consumer (pipes s ! i) \<noteq> CReceiving
              \<longrightarrow> objects (pipes s ! i) = map Data src)
         \<and> (\<exists>s. run R (sampling_schedule i (length src)) (RunE_start c) = Some s
                \<and> reachable R c s \<and> consumer (pipes s ! i) = CResolving
                \<and> objects (pipes s ! i) = map Data src)"
proof -
  have "objects (pipes s ! i) = map Data src"
    if r: "reachable R c s" and pc: "consumer (pipes s ! i) \<noteq> CReceiving" for s
  proof -
    from reachable_pipes(1) [OF r assms(1,2)] assms(3) have "i < length (pipes s)" by simp
    with r assms(2,3) show ?thesis using assms(4,5) pc by (rule short_source_objects)
  qed
  moreover from assms(5) have "length src \<le> recordsPerStream" by simp
  with assms(1-4) obtain s where
    s: "run R (sampling_schedule i (length src)) (RunE_start c) = Some s"
      "consumer (pipes s ! i) = CResolving" "objects (pipes s ! i) = map Data src"
    using sampling_completes [of c streams i src R] by blast
  from s(1) have "reachable R c s"
    by (rule run_reachable) (rule reachable.start)
  ultimately show ?thesis using s by blast
qed

theorem short_source_retained_in_full_witness:
  "started healthy \<and> Discover healthy = Inr [plain ''a'', plain ''b'']
   \<and> Read healthy ([plain ''a'', plain ''b''] ! 0) = (numbered 3, None)
   \<and> length (numbered 3) < recordsPerStream
   \<and> reachable sample_size healthy (final sample_size healthy healthy_schedule)
   \<and> consumer (pipes (final sample_size healthy healthy_schedule) ! 0) \<noteq> CReceiving
   \<and> objects (pipes (final sample_size healthy healthy_schedule) ! 0) = map Data (numbered 3)
   \<and> map Data (numbered 3) = [0, 1, 2]
   \<and> (\<exists>s. run sample_size (sampling_schedule 0 (length (numbered 3))) (RunE_start healthy)
             = Some s
          \<and> consumer (pipes s ! 0) = CResolving \<and> objects (pipes s ! 0) = map Data (numbered 3))"
proof -
  have "run sample_size healthy_schedule (RunE_start healthy) \<noteq> None" by code_simp
  then have r: "reachable sample_size healthy (final sample_size healthy healthy_schedule)"
    by (rule final_reachable)
  have st: "started healthy" by code_simp
  have d: "Discover healthy = Inr [plain ''a'', plain ''b'']"
    by (simp add: healthy_def driver_def)
  have i: "(0::nat) < length [plain ''a'', plain ''b'']" by simp
  have rd: "Read healthy ([plain ''a'', plain ''b''] ! 0) = (numbered 3, None)"
    by (simp add: healthy_def driver_def plain_def)
  have l: "length (numbered 3) < recordsPerStream" by code_simp
  have pc: "consumer (pipes (final sample_size healthy healthy_schedule) ! 0) \<noteq> CReceiving"
    by code_simp
  have v: "map Data (numbered 3) = [0, 1, 2]" by code_simp
  note claim = short_source_retained_in_full [OF st d i rd l, of sample_size]
  from claim r pc
  have "objects (pipes (final sample_size healthy healthy_schedule) ! 0) = map Data (numbered 3)"
    by blast
  moreover from claim
  have "\<exists>s. run sample_size (sampling_schedule 0 (length (numbered 3))) (RunE_start healthy)
             = Some s
          \<and> consumer (pipes s ! 0) = CResolving \<and> objects (pipes s ! 0) = map Data (numbered 3)"
    by blast
  ultimately show ?thesis using st d rd l r pc v by simp
qed

subsection \<open>C5: the catalog\<close>

text \<open>
  Claim C5: a catalog that has been logged has one entry per discovered stream, in the
  order of the enumeration: entry \<open>i\<close> is stream \<open>i\<close> with the schema resolved from that
  stream's sample. It is logged only after the barrier: the counter of the wait group is
  zero and every consumer has called \<^verbatim>\<open>group.Done()\<close>.
\<close>

theorem catalog_follows_discovery_order:
  assumes "reachable R c s" and "catalog s = Some cat" and "Discover c = Inr streams"
  shows "length cat = length streams \<and> map Name cat = map Name streams \<and> group s = 0
         \<and> (\<forall>i<length streams. consumer (pipes s ! i) = CDone
               \<and> (\<exists>properties. R (objects (pipes s ! i)) = Inr properties
                     \<and> cat ! i = WithJSONSchema \<lparr>Properties = properties\<rparr> (streams ! i)))"
proof -
  from assms(1,2) have st: "started c"
    using reachable_not_started [of R c s] by (cases "started c") auto
  from assms(1,2) have g: "group s = 0" and w: "waiting (pipes s) = 0"
    and cat: "cat = map stream (pipes s)"
    using reachable_inv [of R c s] by (auto simp: state_inv_def)
  note len = reachable_pipes(1) [OF assms(1) st assms(3)]
  have each: "consumer (pipes s ! i) = CDone
               \<and> (\<exists>properties. R (objects (pipes s ! i)) = Inr properties
                     \<and> cat ! i = WithJSONSchema \<lparr>Properties = properties\<rparr> (streams ! i))"
    if i: "i < length streams" for i
  proof -
    from w i len have d: "consumer (pipes s ! i) = CDone"
      by (simp add: waiting_zero)
    from reachable_pipes(2) [OF assms(1) st assms(3) i] d
    obtain properties where "R (objects (pipes s ! i)) = Inr properties"
      "stream (pipes s ! i) = WithJSONSchema \<lparr>Properties = properties\<rparr> (streams ! i)"
      by (auto simp: pipe_inv_def)
    with d cat i len show ?thesis by simp
  qed
  have "Name (cat ! i) = Name (streams ! i)" if "i < length streams" for i
    using each [OF that] by (auto simp: WithJSONSchema_def)
  with cat len have "map Name cat = map Name streams"
    by (simp add: list_eq_iff_nth_eq)
  with cat len g each show ?thesis by simp
qed

theorem catalog_follows_discovery_order_witness:
  "reachable sample_size healthy (final sample_size healthy healthy_schedule)
   \<and> catalog (final sample_size healthy healthy_schedule)
       = Some [\<lparr>Name = ''a'', JSONSchema = Some \<lparr>Properties = 3\<rparr>\<rparr>,
               \<lparr>Name = ''b'', JSONSchema = Some \<lparr>Properties = 0\<rparr>\<rparr>]
   \<and> Discover healthy = Inr [plain ''a'', plain ''b'']
   \<and> map Name [\<lparr>Name = ''a'', JSONSchema = Some \<lparr>Properties = 3::nat\<rparr>\<rparr>,
                \<lparr>Name = ''b'', JSONSchema = Some \<lparr>Properties = 0\<rparr>\<rparr>]
       = map Name [plain ''a'', plain ''b'']
   \<and> group (final sample_size healthy healthy_schedule) = 0
   \<and> consumer (pipes (final sample_size healthy healthy_schedule) ! 1) = CDone"
proof -
  have "run sample_size healthy_schedule (RunE_start healthy) \<noteq> None" by code_simp
  then have r: "reachable sample_size healthy (final sample_size healthy healthy_schedule)"
    by (rule final_reachable)
  have cat: "catalog (final sample_size healthy healthy_schedule)
       = Some [\<lparr>Name = ''a'', JSONSchema = Some \<lparr>Properties = 3\<rparr>\<rparr>,
               \<lparr>Name = ''b'', JSONSchema = Some \<lparr>Properties = 0\<rparr>\<rparr>]"
    by code_simp
  have d: "Discover healthy = Inr [plain ''a'', plain ''b'']"
    by (simp add: healthy_def driver_def)
  from catalog_follows_discovery_order [OF r cat d] r cat d show ?thesis by simp
qed

subsection \<open>C6: resolution after sampling\<close>

text \<open>
  Claim C6: once the consumer of a stream has left its receive loop (resolution is about
  to start or has started), the channel is closed and empty, and whatever happens
  afterwards, in any order and for any number of steps, the sample of that stream stays
  as it is and the consumer never receives again.
\<close>

theorem no_append_after_drain:
  assumes "reachable R c s" and "i < length (pipes s)" and "consumer (pipes s ! i) \<noteq> CReceiving"
  shows "closed (pipes s ! i) \<and> channel (pipes s ! i) = []
         \<and> (\<forall>sched s'. run R sched s = Some s' \<longrightarrow>
               objects (pipes s' ! i) = objects (pipes s ! i)
               \<and> consumer (pipes s' ! i) \<noteq> CReceiving)"
proof -
  from assms(1,2) have st: "started c"
    using reachable_not_started [of R c s] by (cases "started c") auto
  from assms(1) have all: "list_all2 (pipe_ok R c) (discovered c) (pipes s)"
    using reachable_inv [of R c s] by (simp add: state_inv_def)
  with assms(2) have "pipe_ok R c (discovered c ! i) (pipes s ! i)"
    by (simp add: list_all2_conv_all_nth)
  with assms(3) have "closed (pipes s ! i) \<and> channel (pipes s ! i) = []"
    by (simp add: pipe_ok_def pipe_inv_def)
  with run_keeps_objects [OF _ assms(2,3)] show ?thesis by blast
qed

theorem no_append_after_drain_witness:
  "reachable sample_size healthy (final sample_size healthy healthy_sampling)
   \<and> 0 < length (pipes (final sample_size healthy healthy_sampling))
   \<and> consumer (pipes (final sample_size healthy healthy_sampling) ! 0) \<noteq> CReceiving
   \<and> closed (pipes (final sample_size healthy healthy_sampling) ! 0)
   \<and> channel (pipes (final sample_size healthy healthy_sampling) ! 0) = []
   \<and> run sample_size healthy_rest (final sample_size healthy healthy_sampling) \<noteq> None
   \<and> objects (pipes (the (run sample_size healthy_rest
                  (final sample_size healthy healthy_sampling))) ! 0)
       = objects (pipes (final sample_size healthy healthy_sampling) ! 0)"
proof -
  have "run sample_size healthy_sampling (RunE_start healthy) \<noteq> None" by code_simp
  then have r: "reachable sample_size healthy (final sample_size healthy healthy_sampling)"
    by (rule final_reachable)
  have j: "0 < length (pipes (final sample_size healthy healthy_sampling))" by code_simp
  have pc: "consumer (pipes (final sample_size healthy healthy_sampling) ! 0) \<noteq> CReceiving"
    by code_simp
  have more: "run sample_size healthy_rest (final sample_size healthy healthy_sampling) \<noteq> None"
    by code_simp
  then obtain s' where
    s': "run sample_size healthy_rest (final sample_size healthy healthy_sampling) = Some s'"
    by blast
  from no_append_after_drain [OF r j pc] s'
  have "closed (pipes (final sample_size healthy healthy_sampling) ! 0)"
    "channel (pipes (final sample_size healthy healthy_sampling) ! 0) = []"
    "objects (pipes s' ! 0) = objects (pipes (final sample_size healthy healthy_sampling) ! 0)"
    by blast+
  with r j pc more s' show ?thesis by simp
qed

subsection \<open>C7: integer and number\<close>

text \<open>
  Claim C7: if, across a sample of objects, a field occurs with an integer value and with
  a fractional value, its resolved type is never integer and never a union that holds
  integer (a union holds number instead); and if the field has no occurrence of another
  kind than integer, number and null, its resolved type is number.
\<close>

theorem Resolve_widens_integer_and_number:
  assumes recs: "list_all is_object records"
    and int: "JObj kvs1 \<in> set records" "map_of kvs1 f = Some v1" "kind_of v1 = KInteger"
    and num: "JObj kvs2 \<in> set records" "map_of kvs2 f = Some v2" "kind_of v2 = KNumber"
  shows "\<exists>props d. Resolve records = Inr props \<and> map_of props f = Some d
           \<and> shape_of d \<noteq> TInteger
           \<and> (\<forall>ks. shape_of d = TUnion ks \<longrightarrow> KInteger \<notin> set ks \<and> KNumber \<in> set ks)
           \<and> ((\<forall>kvs v. JObj kvs \<in> set records \<and> map_of kvs f = Some v
                  \<longrightarrow> kind_of v \<in> {KNull, KInteger, KNumber})
                \<longrightarrow> shape_of d = TNumber)"
proof -
  let ?objs = "objects_of records"
  let ?vs = "occurrences f ?objs"
  let ?d = "describe (missing f ?objs) ?vs"
  from recs have objs: "map JObj ?objs = records" by (rule objects_of_all)
  then have mem: "kvs \<in> set ?objs \<longleftrightarrow> JObj kvs \<in> set records" for kvs
    by (metis (no_types) image_iff json.inject(6) set_map)
  from int num mem have o1: "kvs1 \<in> set ?objs" and o2: "kvs2 \<in> set ?objs" by simp_all
  from o1 int(2) have names: "f \<in> set (field_names ?objs)" by (rule in_field_names)
  from o1 int(2) have v1: "v1 \<in> set ?vs" by (auto simp: set_occurrences)
  from o2 num(2) have v2: "v2 \<in> set ?vs" by (auto simp: set_occurrences)
  note k = kinds_numeric [OF v1 int(3) v2 num(3)]
  from recs have res: "Resolve records = Inr (properties ?objs)" by (simp add: Resolve_def)
  from names have look: "map_of (properties ?objs) f = Some ?d" by (simp add: map_of_properties)
  have a: "shape_of ?d \<noteq> TInteger" using k(1,2) by (rule describe_not_integer(1))
  have b: "KInteger \<notin> set ks \<and> KNumber \<in> set ks" if "shape_of ?d = TUnion ks" for ks
    using k(1,2) that by (rule describe_not_integer(2))
  have c: "shape_of ?d = TNumber"
    if all: "\<forall>kvs v. JObj kvs \<in> set records \<and> map_of kvs f = Some v
                  \<longrightarrow> kind_of v \<in> {KNull, KInteger, KNumber}"
  proof -
    from all mem have "\<forall>v\<in>set ?vs. kind_of v \<in> {KNull, KInteger, KNumber}"
      by (auto simp: set_occurrences)
    then have "kinds ?vs = [KNumber]" by (rule k(3))
    moreover from num(3) have "v2 \<noteq> JNull" by auto
    with v2 have "present ?vs \<noteq> []"
      by (auto simp: present_def filter_empty_conv)
    ultimately show ?thesis by (simp add: describe_shape)
  qed
  from res look a b c show ?thesis by blast
qed

theorem Resolve_widens_integer_and_number_witness:
  "list_all is_object widening_sample
   \<and> JObj [(''a'', JInt 1)] \<in> set widening_sample \<and> kind_of (JInt 1) = KInteger
   \<and> JObj [(''a'', JNum (3 / 2))] \<in> set widening_sample \<and> kind_of (JNum (3 / 2)) = KNumber
   \<and> (\<exists>props d. Resolve widening_sample = Inr props \<and> map_of props ''a'' = Some d
         \<and> shape_of d = TNumber)"
proof -
  have all: "list_all is_object widening_sample"
    by (simp add: widening_sample_def)
  have m1: "JObj [(''a'', JInt 1)] \<in> set widening_sample"
    and m2: "JObj [(''a'', JNum (3 / 2))] \<in> set widening_sample"
    by (simp_all add: widening_sample_def)
  have l1: "map_of [(''a'', JInt 1)] ''a'' = Some (JInt 1)"
    and l2: "map_of [(''a'', JNum (3 / 2))] ''a'' = Some (JNum (3 / 2))"
    by simp_all
  have k1: "kind_of (JInt 1) = KInteger" by simp
  have k2: "kind_of (JNum (3 / 2)) = KNumber" by code_simp
  have numeric: "\<forall>kvs v. JObj kvs \<in> set widening_sample \<and> map_of kvs ''a'' = Some v
      \<longrightarrow> kind_of v \<in> {KNull, KInteger, KNumber}"
    using k1 k2 by (auto simp: widening_sample_def)
  from Resolve_widens_integer_and_number [OF all m1 l1 k1 m2 l2 k2] numeric
  have "\<exists>props d. Resolve widening_sample = Inr props \<and> map_of props ''a'' = Some d
         \<and> shape_of d = TNumber"
    by blast
  with all m1 m2 k1 k2 show ?thesis by simp
qed

subsection \<open>C8: the siblings of a failed pipeline\<close>




subsection \<open>C9: exit status and return value\<close>



subsection \<open>C10: FileLogger\<close>

text \<open>
  Claim C10: if \<^verbatim>\<open>CONFIG_FOLDER\<close> is empty or marshaling fails, \<open>FileLogger\<close> returns an
  error and leaves the file system as it was; and if it returns no error, the content
  was marshaled and the file system differs from the one before in the target file
  only, which holds exactly the marshaled bytes, whatever it held before.
\<close>

theorem FileLogger_contract:
  "(CONFIG_FOLDER env = [] \<or> (\<exists>e. Marshal env content = Inl e) \<longrightarrow>
      fst (FileLogger env content fileName fileExtension fs) \<noteq> None
      \<and> snd (FileLogger env content fileName fileExtension fs) = fs)
   \<and> (fst (FileLogger env content fileName fileExtension fs) = None \<longrightarrow>
        CONFIG_FOLDER env \<noteq> []
        \<and> (\<exists>contentBytes. Marshal env content = Inr contentBytes
              \<and> snd (FileLogger env content fileName fileExtension fs)
                  = fs(Join env (CONFIG_FOLDER env) (fileName @ fileExtension) \<mapsto> contentBytes)))"
  by (auto simp: FileLogger_def Let_def min_def split: sum.splits option.splits if_splits)

theorem FileLogger_contract_witness:
  "CONFIG_FOLDER unconfigured = []
   \<and> fst (FileLogger unconfigured 2 ''stats'' ''.json'' old_files) \<noteq> None
   \<and> snd (FileLogger unconfigured 2 ''stats'' ''.json'' old_files) = old_files
   \<and> Marshal configured 0 = Inl ''unsupported value''
   \<and> fst (FileLogger configured 0 ''stats'' ''.json'' old_files) \<noteq> None
   \<and> snd (FileLogger configured 0 ''stats'' ''.json'' old_files) = old_files
   \<and> fst (FileLogger configured 2 ''stats'' ''.json'' old_files) = None
   \<and> snd (FileLogger configured 2 ''stats'' ''.json'' old_files) ''/cfg/stats.json'' = Some ''11''"
proof -
  have u: "CONFIG_FOLDER unconfigured = []"
    by (simp add: unconfigured_def)
  have m: "Marshal configured 0 = Inl ''unsupported value''"
    by (simp add: configured_def tally_def)
  have ok: "fst (FileLogger configured 2 ''stats'' ''.json'' old_files) = None"
    by (simp add: FileLogger_def configured_def tally_def Let_def numeral_2_eq_2)
  have two: "Marshal configured 2 = Inr ''11''"
    by (simp add: configured_def tally_def numeral_2_eq_2)
  have path: "Join configured (CONFIG_FOLDER configured) (''stats'' @ ''.json'') = ''/cfg/stats.json''"
    by (simp add: configured_def)
  from FileLogger_contract [of unconfigured 2 "''stats''" "''.json''" old_files] u
  have a: "fst (FileLogger unconfigured 2 ''stats'' ''.json'' old_files) \<noteq> None"
    "snd (FileLogger unconfigured 2 ''stats'' ''.json'' old_files) = old_files"
    by blast+
  from FileLogger_contract [of configured 0 "''stats''" "''.json''" old_files] m
  have b: "fst (FileLogger configured 0 ''stats'' ''.json'' old_files) \<noteq> None"
    "snd (FileLogger configured 0 ''stats'' ''.json'' old_files) = old_files"
    by blast+
  from FileLogger_contract [of configured 2 "''stats''" "''.json''" old_files] ok two path
  have c: "snd (FileLogger configured 2 ''stats'' ''.json'' old_files) ''/cfg/stats.json'' = Some ''11''"
    by auto
  from u m ok a b c show ?thesis by simp
qed

end
